theory Spec2Isabelle
  imports Main
begin

section \<open>AnsiEscape: removing and rendering CSI escape sequences\<close>

text \<open>
  The development embeds \<^verbatim>\<open>libraries/node-core-library/src/Terminal/AnsiEscape.ts\<close>.
  A JavaScript string is modelled as a \<^typ>\<open>string\<close>, one \<^typ>\<open>char\<close> per code unit, so
  the texts covered are those whose code units are below 0x100. Every code unit that the
  regular expressions of the class test for lies between 0x0A and 0x7E; any other code unit
  is never part of a match and is copied through, and the \<^verbatim>\<open>u\<close> flag (which changes
  how a search steps over a surrogate pair) has no effect on what is matched.
\<close>

subsection \<open>Character classes\<close>

definition ESC :: char where
  "ESC = CHR 0x1B"

definition LF :: char where
  "LF = CHR 0x0A"

definition CR :: char where
  "CR = CHR 0x0D"

text \<open>The class \<^verbatim>\<open>[\x30-\x3f]\<close> of \<^verbatim>\<open>_csiRegExp\<close>.\<close>

definition is_param :: "char \<Rightarrow> bool" where
  "is_param c \<longleftrightarrow> 0x30 \<le> (of_char c :: nat) \<and> (of_char c :: nat) \<le> 0x3F"

text \<open>The class \<^verbatim>\<open>[\x20-\x2f]\<close> of \<^verbatim>\<open>_csiRegExp\<close>.\<close>

definition is_intermediate :: "char \<Rightarrow> bool" where
  "is_intermediate c \<longleftrightarrow> 0x20 \<le> (of_char c :: nat) \<and> (of_char c :: nat) \<le> 0x2F"

text \<open>The class \<^verbatim>\<open>[\x40-\x7e]\<close> of \<^verbatim>\<open>_csiRegExp\<close>.\<close>

definition is_final :: "char \<Rightarrow> bool" where
  "is_final c \<longleftrightarrow> 0x40 \<le> (of_char c :: nat) \<and> (of_char c :: nat) \<le> 0x7E"

text \<open>The class \<^verbatim>\<open>[0-9]\<close> of \<^verbatim>\<open>_sgrRegExp\<close>.\<close>

definition is_digit :: "char \<Rightarrow> bool" where
  "is_digit c \<longleftrightarrow> 0x30 \<le> (of_char c :: nat) \<and> (of_char c :: nat) \<le> 0x39"

subsection \<open>The regular expressions\<close>

text \<open>
  \<^verbatim>\<open>_csiRegExp = /\x1b\[([\x30-\x3f]*[\x20-\x2f]*[\x40-\x7e])/gu\<close>, tried at the head
  of a string. The result holds the whole match (the replacer's \<^verbatim>\<open>capture\<close>), capture
  group 1 (the replacer's \<^verbatim>\<open>csiCode\<close>: parameter bytes, intermediate bytes and the final
  byte, the group's closing parenthesis standing after the final byte's class) and the
  text after the match. The two starred classes are greedy; the three classes are pairwise
  disjoint, so giving back a character of a run never lets a later class match it, and
  the longest runs decide the match (\<open>csiRegExp_at_iff\<close> below states the match
  against the grammar itself).
\<close>

fun csiRegExp_at :: "string \<Rightarrow> (string \<times> string \<times> string) option" where
  "csiRegExp_at (e # b # t) =
     (if e = ESC \<and> b = CHR ''['' then
        (let ps = takeWhile is_param t;
             t1 = dropWhile is_param t;
             ims = takeWhile is_intermediate t1;
             t2 = dropWhile is_intermediate t1
         in case t2 of
              [] \<Rightarrow> None
            | f # rest \<Rightarrow>
                if is_final f
                then Some (e # b # ps @ ims @ [f], ps @ ims @ [f], rest)
                else None)
      else None)"
| "csiRegExp_at _ = None"

text \<open>
  \<^verbatim>\<open>text.replace(_csiRegExp, replacer)\<close> with the global flag: the matches are taken
  from left to right, each search resuming after the previous match; a position where
  the expression does not match contributes its character unchanged. The replacer
  receives the whole match and capture group 1.
\<close>

function replace_csi :: "(string \<Rightarrow> string \<Rightarrow> string) \<Rightarrow> string \<Rightarrow> string" where
  "replace_csi f [] = []"
| "replace_csi f (c # s) =
     (case csiRegExp_at (c # s) of
        Some (capture, csiCode, rest) \<Rightarrow> f capture csiCode @ replace_csi f rest
      | None \<Rightarrow> c # replace_csi f s)"
  by pat_completeness auto
termination
proof (relation "measure (\<lambda>(f, s). length s)")
  show "wf (measure (\<lambda>(f :: string \<Rightarrow> string \<Rightarrow> string, s :: string). length s))"
    by simp
next
  fix f :: "string \<Rightarrow> string \<Rightarrow> string" and c :: char and s :: string
  show "((f, s), (f, c # s)) \<in> measure (\<lambda>(f, s). length s)"
    by simp
next
  fix f :: "string \<Rightarrow> string \<Rightarrow> string" and c :: char and s capture csiCode rest :: string
    and m :: "string \<times> string \<times> string" and x :: "string \<times> string"
  assume m: "csiRegExp_at (c # s) = Some m" "(capture, x) = m" "(csiCode, rest) = x"
  show "((f, rest), (f, c # s)) \<in> measure (\<lambda>(f, s). length s)"
  proof (cases s)
    case Nil
    with m show ?thesis by simp
  next
    case (Cons b t)
    have "length (dropWhile is_intermediate (dropWhile is_param t)) \<le> length t"
      using order_trans [OF length_dropWhile_le length_dropWhile_le] .
    with m Cons show ?thesis
      by (auto simp: Let_def split: if_splits list.splits)
  qed
qed

text \<open>
  \<^verbatim>\<open>_sgrRegExp = /([0-9]+)m/u\<close> tried at the head of a string: the digit run is
  greedy, and a shorter run would be followed by a digit, never by \<^verbatim>\<open>m\<close>, so the
  longest run decides. The result is capture group 1.
\<close>

definition sgrRegExp_at :: "string \<Rightarrow> string option" where
  "sgrRegExp_at s =
     (let ds = takeWhile is_digit s
      in case dropWhile is_digit s of
           [] \<Rightarrow> None
         | c # _ \<Rightarrow> if ds \<noteq> [] \<and> c = CHR ''m'' then Some ds else None)"

text \<open>
  \<^verbatim>\<open>csiCode.match(_sgrRegExp)\<close>: the expression has no anchor and no global flag, so
  the result is the leftmost match anywhere in the string (its group 1), or
  \<^verbatim>\<open>null\<close>.
\<close>

fun sgrRegExp_match :: "string \<Rightarrow> string option" where
  "sgrRegExp_match [] = None"
| "sgrRegExp_match (c # s) =
     (case sgrRegExp_at (c # s) of
        Some ds \<Rightarrow> Some ds
      | None \<Rightarrow> sgrRegExp_match s)"

text \<open>
  \<^verbatim>\<open>parseInt(match[1])\<close>. The argument is always group 1 of \<^verbatim>\<open>_sgrRegExp\<close>, a
  non-empty run of ASCII digits, which \<^verbatim>\<open>parseInt\<close> reads in base 10 (a leading zero
  does not select another radix). The result is the exact value; the double that
  JavaScript returns differs from it only above \<open>2 ^ 53\<close>, where both are larger than
  every key of the table.
\<close>

definition digit_value :: "char \<Rightarrow> nat" where
  "digit_value c = of_char c - 0x30"

definition parseInt :: "string \<Rightarrow> nat" where
  "parseInt ds = foldl (\<lambda>n c. 10 * n + digit_value c) 0 ds"

subsection \<open>The SGR table\<close>

text \<open>\<^verbatim>\<open>_tryGetSgrFriendlyName\<close>: the switch, in the order of its cases; \<^verbatim>\<open>undefined\<close> is \<open>None\<close>.\<close>

definition tryGetSgrFriendlyName :: "nat \<Rightarrow> string option" where
  "tryGetSgrFriendlyName sgiParameter =
     (if sgiParameter = 30 then Some ''black''
      else if sgiParameter = 31 then Some ''red''
      else if sgiParameter = 32 then Some ''green''
      else if sgiParameter = 33 then Some ''yellow''
      else if sgiParameter = 34 then Some ''blue''
      else if sgiParameter = 35 then Some ''magenta''
      else if sgiParameter = 36 then Some ''cyan''
      else if sgiParameter = 37 then Some ''white''
      else if sgiParameter = 90 then Some ''gray''
      else if sgiParameter = 39 then Some ''default''
      else if sgiParameter = 40 then Some ''black-bg''
      else if sgiParameter = 41 then Some ''red-bg''
      else if sgiParameter = 42 then Some ''green-bg''
      else if sgiParameter = 43 then Some ''yellow-bg''
      else if sgiParameter = 44 then Some ''blue-bg''
      else if sgiParameter = 45 then Some ''magenta-bg''
      else if sgiParameter = 46 then Some ''cyan-bg''
      else if sgiParameter = 47 then Some ''white-bg''
      else if sgiParameter = 100 then Some ''gray-bg''
      else if sgiParameter = 49 then Some ''default-bg''
      else if sgiParameter = 1 then Some ''bold''
      else if sgiParameter = 21 then Some ''bold-off''
      else if sgiParameter = 2 then Some ''dim''
      else if sgiParameter = 22 then Some ''normal''
      else if sgiParameter = 4 then Some ''underline''
      else if sgiParameter = 24 then Some ''underline-off''
      else if sgiParameter = 5 then Some ''blink''
      else if sgiParameter = 25 then Some ''blink-off''
      else if sgiParameter = 7 then Some ''invert''
      else if sgiParameter = 27 then Some ''invert-off''
      else if sgiParameter = 8 then Some ''hidden''
      else if sgiParameter = 28 then Some ''hidden-off''
      else None)"

subsection \<open>The two operations\<close>

text \<open>\<^verbatim>\<open>removeCodes\<close>: every match is replaced by the empty string.\<close>

definition removeCodes :: "string \<Rightarrow> string" where
  "removeCodes text = replace_csi (\<lambda>capture csiCode. []) text"

text \<open>
  The replacer of \<^verbatim>\<open>formatForTests\<close>. \<^verbatim>\<open>if (sgrParameterName)\<close> tests for a
  non-empty string; no name of the table is empty, so it holds exactly on a table hit.
\<close>

definition sgrReplacer :: "string \<Rightarrow> string \<Rightarrow> string" where
  "sgrReplacer capture csiCode =
     (case sgrRegExp_match csiCode of
        Some digits \<Rightarrow>
          (case tryGetSgrFriendlyName (parseInt digits) of
             Some sgrParameterName \<Rightarrow> ''['' @ sgrParameterName @ '']''
           | None \<Rightarrow> ''['' @ csiCode @ '']'')
      | None \<Rightarrow> ''['' @ csiCode @ '']'')"

text \<open>
  \<^verbatim>\<open>s.replace(/\n/g, '[n]')\<close> and \<^verbatim>\<open>s.replace(/\r/g, '[r]')\<close>: every occurrence of
  one character is replaced by a fixed token.
\<close>

definition replace_char :: "char \<Rightarrow> string \<Rightarrow> string \<Rightarrow> string" where
  "replace_char c token s = concat (map (\<lambda>x. if x = c then token else [x]) s)"

text \<open>
  \<^verbatim>\<open>IAnsiEscapeConvertForTestsOptions\<close>: the one field is optional. The argument
  \<^verbatim>\<open>options\<close> of \<^verbatim>\<open>formatForTests\<close> is optional too; when it is absent the
  function takes the empty object.
\<close>

record IAnsiEscapeConvertForTestsOptions =
  encodeNewlines :: "bool option"

definition formatForTests :: "string \<Rightarrow> IAnsiEscapeConvertForTestsOptions option \<Rightarrow> string" where
  "formatForTests text options =
     (let opts = (case options of
                    None \<Rightarrow> \<lparr>encodeNewlines = None\<rparr>
                  | Some given \<Rightarrow> given);
          result = replace_csi sgrReplacer text
      in if encodeNewlines opts = Some True
         then replace_char CR ''[r]'' (replace_char LF ''[n]'' result)
         else result)"

section \<open>Notions of the specification\<close>

text \<open>
  The CSI grammar as the specification words it: the escape character, then \<^verbatim>\<open>[\<close>, then
  zero or more parameter bytes (0x30 to 0x3F), then zero or more intermediate bytes (0x20
  to 0x2F), then exactly one final byte (0x40 to 0x7E).
\<close>

definition csi_sequence :: "string \<Rightarrow> bool" where
  "csi_sequence w \<longleftrightarrow>
     (\<exists>ps ims f. w = ESC # CHR ''['' # ps @ ims @ [f] \<and>
        (\<forall>c\<in>set ps. is_param c) \<and> (\<forall>c\<in>set ims. is_intermediate c) \<and> is_final f)"

text \<open>A CSI sequence stands at the head of a string.\<close>

definition starts_csi :: "string \<Rightarrow> bool" where
  "starts_csi s \<longleftrightarrow> (\<exists>w r. s = w @ r \<and> csi_sequence w)"

text \<open>Some substring of a string is a CSI sequence.\<close>

definition contains_csi :: "string \<Rightarrow> bool" where
  "contains_csi s \<longleftrightarrow> (\<exists>u w v. s = u @ w @ v \<and> csi_sequence w)"

text \<open>The same, computed with the recogniser of the source (\<open>contains_csi_iff\<close>).\<close>

fun has_csi :: "string \<Rightarrow> bool" where
  "has_csi [] = False"
| "has_csi (c # s) = (case csiRegExp_at (c # s) of Some m \<Rightarrow> True | None \<Rightarrow> has_csi s)"

text \<open>
  Deleting the CSI sequences of a string, as the specification words it: reading from
  left to right, a CSI sequence at the current position is dropped and reading resumes
  after it (so the deleted spans do not overlap); a character at which no CSI sequence
  starts is kept, in its place.
\<close>

inductive csi_deleted :: "string \<Rightarrow> string \<Rightarrow> bool" where
  Nil: "csi_deleted [] []"
| Match: "csi_sequence w \<Longrightarrow> csi_deleted r out \<Longrightarrow> csi_deleted (w @ r) out"
| Keep: "\<not> starts_csi (c # s) \<Longrightarrow> csi_deleted s out \<Longrightarrow> csi_deleted (c # s) (c # out)"

text \<open>
  Every escape character of a string starts a CSI sequence: none is left over by the
  recogniser. The function \<open>stray_free\<close> computes the same with the recogniser of
  the source (\<open>no_stray_esc_iff\<close>).
\<close>

definition no_stray_esc :: "string \<Rightarrow> bool" where
  "no_stray_esc s \<longleftrightarrow> (\<forall>u t. s = u @ ESC # t \<longrightarrow> starts_csi (ESC # t))"

fun stray_free :: "string \<Rightarrow> bool" where
  "stray_free [] = True"
| "stray_free (c # s) =
     (case csiRegExp_at (c # s) of
        Some m \<Rightarrow> stray_free s
      | None \<Rightarrow> c \<noteq> ESC \<and> stray_free s)"

text \<open>
  Newline encoding as the specification words it: every line feed becomes the token
  \<^verbatim>\<open>[n]\<close> and every carriage return the token \<^verbatim>\<open>[r]\<close>, in one pass.
\<close>

definition encode_newlines :: "string \<Rightarrow> string" where
  "encode_newlines s =
     concat (map (\<lambda>c. if c = LF then ''[n]'' else if c = CR then ''[r]'' else [c]) s)"

text \<open>The two line-ending characters.\<close>

definition is_newline :: "char \<Rightarrow> bool" where
  "is_newline c \<longleftrightarrow> c = LF \<or> c = CR"

text \<open>
  The SGR translation step on its own: what the replacer of \<^verbatim>\<open>formatForTests\<close>
  computes from \<^verbatim>\<open>csiCode\<close> before it builds a token (the match against
  \<^verbatim>\<open>_sgrRegExp\<close>, \<^verbatim>\<open>parseInt\<close> and the table), with \<open>None\<close> for no friendly
  name (\<open>sgrReplacer_eq\<close> states the replacer with it).
\<close>

definition sgrFriendlyName :: "string \<Rightarrow> string option" where
  "sgrFriendlyName csiCode =
     (case sgrRegExp_match csiCode of
        Some digits \<Rightarrow> tryGetSgrFriendlyName (parseInt digits)
      | None \<Rightarrow> None)"

text \<open>The longest run of decimal digits at the end of a string.\<close>

definition trailing_digits :: "string \<Rightarrow> string" where
  "trailing_digits xs = rev (takeWhile is_digit (rev xs))"

text \<open>
  The decimal numeral of a number: what the concatenation \<^verbatim>\<open>"\x1b[" + code + "m"\<close> of
  the specification's examples puts between the introducer and \<^verbatim>\<open>m\<close>.
\<close>

definition digit_char :: "nat \<Rightarrow> char" where
  "digit_char d = char_of (0x30 + d)"

fun decimal :: "nat \<Rightarrow> string" where
  "decimal n = (if n < 10 then [digit_char n] else decimal (n div 10) @ [digit_char (n mod 10)])"

declare decimal.simps [simp del]

text \<open>The SGR table of the specification, pair by pair.\<close>

definition sgr_table :: "(nat \<times> string) list" where
  "sgr_table =
     [(30, ''black''), (31, ''red''), (32, ''green''), (33, ''yellow''), (34, ''blue''),
      (35, ''magenta''), (36, ''cyan''), (37, ''white''), (90, ''gray''), (39, ''default''),
      (40, ''black-bg''), (41, ''red-bg''), (42, ''green-bg''), (43, ''yellow-bg''),
      (44, ''blue-bg''), (45, ''magenta-bg''), (46, ''cyan-bg''), (47, ''white-bg''),
      (100, ''gray-bg''), (49, ''default-bg''),
      (1, ''bold''), (21, ''bold-off''), (2, ''dim''), (22, ''normal''),
      (4, ''underline''), (24, ''underline-off''), (5, ''blink''), (25, ''blink-off''),
      (7, ''invert''), (27, ''invert-off''), (8, ''hidden''), (28, ''hidden-off'')]"

section \<open>The recogniser and the grammar\<close>

lemmas class_defs = ESC_def is_param_def is_intermediate_def is_final_def is_digit_def

lemma intermediate_not_param: "is_intermediate c \<Longrightarrow> \<not> is_param c"
  by (simp add: is_intermediate_def is_param_def)

lemma final_not_param: "is_final c \<Longrightarrow> \<not> is_param c"
  by (simp add: is_final_def is_param_def)

lemma final_not_intermediate: "is_final c \<Longrightarrow> \<not> is_intermediate c"
  by (simp add: is_final_def is_intermediate_def)

lemma ESC_no_class: "\<not> is_param ESC" "\<not> is_intermediate ESC" "\<not> is_final ESC"
  by (simp_all add: ESC_def is_param_def is_intermediate_def is_final_def)

lemma takeWhile_run:
  assumes "\<forall>c\<in>set xs. P c" and "\<not> P y"
  shows "takeWhile P (xs @ y # ys) = xs" and "dropWhile P (xs @ y # ys) = y # ys"
  using assms by (induction xs) auto

lemma scan_tail:
  assumes ps: "\<forall>c\<in>set ps. is_param c" and ims: "\<forall>c\<in>set ims. is_intermediate c"
    and f: "is_final f"
  shows "takeWhile is_param (ps @ ims @ f # rest) = ps"
    and "dropWhile is_param (ps @ ims @ f # rest) = ims @ f # rest"
    and "takeWhile is_intermediate (ims @ f # rest) = ims"
    and "dropWhile is_intermediate (ims @ f # rest) = f # rest"
proof -
  show "takeWhile is_intermediate (ims @ f # rest) = ims"
    and "dropWhile is_intermediate (ims @ f # rest) = f # rest"
    using ims f by (simp_all add: takeWhile_run final_not_intermediate)
  have np: "\<not> is_param (hd (ims @ f # rest))"
    using ims f by (cases ims) (auto simp: intermediate_not_param final_not_param)
  obtain y ys where e: "ims @ f # rest = y # ys"
    by (cases ims) auto
  with np have "\<not> is_param y" by simp
  with ps e show "takeWhile is_param (ps @ ims @ f # rest) = ps"
    and "dropWhile is_param (ps @ ims @ f # rest) = ims @ f # rest"
    by (simp_all add: takeWhile_run)
qed

lemma csiRegExp_at_sequence:
  assumes "\<forall>c\<in>set ps. is_param c" and "\<forall>c\<in>set ims. is_intermediate c" and "is_final f"
  shows "csiRegExp_at (ESC # CHR ''['' # ps @ ims @ f # rest) =
         Some (ESC # CHR ''['' # ps @ ims @ [f], ps @ ims @ [f], rest)"
  unfolding csiRegExp_at.simps scan_tail [OF assms] Let_def using assms(3) by simp

lemma csiRegExp_at_SomeD:
  assumes "csiRegExp_at s = Some (capture, csiCode, rest)"
  shows "\<exists>ps ims f. (\<forall>c\<in>set ps. is_param c) \<and> (\<forall>c\<in>set ims. is_intermediate c) \<and> is_final f \<and>
           csiCode = ps @ ims @ [f] \<and> capture = ESC # CHR ''['' # csiCode \<and> s = capture @ rest"
proof (cases s rule: csiRegExp_at.cases)
  case (1 e b t)
  let ?ps = "takeWhile is_param t"
  let ?t1 = "dropWhile is_param t"
  let ?ims = "takeWhile is_intermediate ?t1"
  let ?t2 = "dropWhile is_intermediate ?t1"
  from assms 1 obtain f where eb: "e = ESC" "b = CHR ''[''" and t2: "?t2 = f # rest"
    and f: "is_final f" and code: "csiCode = ?ps @ ?ims @ [f]" and cap: "capture = e # b # csiCode"
    by (auto simp: Let_def split: if_splits list.splits)
  have "t = ?ps @ ?t1" by simp
  also have "?t1 = ?ims @ ?t2" by simp
  finally have "t = ?ps @ ?ims @ f # rest" using t2 by simp
  then have "s = capture @ rest" using 1 cap code by simp
  moreover have "\<forall>c\<in>set ?ps. is_param c" by (meson set_takeWhileD)
  moreover have "\<forall>c\<in>set ?ims. is_intermediate c" by (meson set_takeWhileD)
  ultimately show ?thesis using f code cap eb by blast
qed (use assms in simp_all)

lemma csiRegExp_at_iff:
  "csiRegExp_at s = Some (capture, csiCode, rest) \<longleftrightarrow>
     csi_sequence capture \<and> capture = ESC # CHR ''['' # csiCode \<and> s = capture @ rest"
proof
  assume "csiRegExp_at s = Some (capture, csiCode, rest)"
  from csiRegExp_at_SomeD [OF this] show "csi_sequence capture \<and> capture = ESC # CHR ''['' # csiCode \<and> s = capture @ rest"
    unfolding csi_sequence_def by blast
next
  assume r: "csi_sequence capture \<and> capture = ESC # CHR ''['' # csiCode \<and> s = capture @ rest"
  then obtain ps ims f where w: "capture = ESC # CHR ''['' # ps @ ims @ [f]"
    and c: "\<forall>c\<in>set ps. is_param c" "\<forall>c\<in>set ims. is_intermediate c" "is_final f"
    unfolding csi_sequence_def by blast
  from r w have "s = ESC # CHR ''['' # ps @ ims @ f # rest" "csiCode = ps @ ims @ [f]" by simp_all
  with csiRegExp_at_sequence [OF c, of rest] w show "csiRegExp_at s = Some (capture, csiCode, rest)"
    by simp
qed

lemma starts_csi_iff: "starts_csi s \<longleftrightarrow> (\<exists>m. csiRegExp_at s = Some m)"
proof
  assume "starts_csi s"
  then obtain w r where "s = w @ r" "csi_sequence w" unfolding starts_csi_def by blast
  moreover from \<open>csi_sequence w\<close> have "w = ESC # CHR ''['' # drop 2 w"
    unfolding csi_sequence_def by auto
  ultimately have "csiRegExp_at s = Some (w, drop 2 w, r)"
    using csiRegExp_at_iff by blast
  then show "\<exists>m. csiRegExp_at s = Some m" by simp
next
  assume "\<exists>m. csiRegExp_at s = Some m"
  then obtain capture csiCode rest where "csiRegExp_at s = Some (capture, csiCode, rest)"
    by auto
  then show "starts_csi s" unfolding starts_csi_def using csiRegExp_at_iff by blast
qed

lemma starts_csi_None: "csiRegExp_at s = None \<longleftrightarrow> \<not> starts_csi s"
  by (cases "csiRegExp_at s") (auto simp: starts_csi_iff)

lemma csi_sequence_shape:
  assumes "csi_sequence w"
  shows "w = ESC # CHR ''['' # drop 2 w" and "drop 2 w \<noteq> []"
  using assms unfolding csi_sequence_def by auto

lemma replace_csi_match:
  assumes "csi_sequence w"
  shows "replace_csi f (w @ r) = f w (drop 2 w) @ replace_csi f r"
proof -
  obtain t where w: "w = ESC # t" using csi_sequence_shape(1) [OF assms] by blast
  have "csiRegExp_at (w @ r) = Some (w, drop 2 w, r)"
    using assms csi_sequence_shape(1) [OF assms] csiRegExp_at_iff by blast
  then have "csiRegExp_at (ESC # t @ r) = Some (w, drop 2 w, r)" using w by simp
  then have "replace_csi f (ESC # t @ r) = f w (drop 2 w) @ replace_csi f r" by simp
  then show ?thesis using w by simp
qed

lemma replace_csi_skip:
  assumes "\<not> starts_csi (c # s)"
  shows "replace_csi f (c # s) = c # replace_csi f s"
  using assms by (simp add: starts_csi_None [symmetric])

lemma csi_deleted_replace: "csi_deleted s (replace_csi (\<lambda>capture csiCode. []) s)"
proof (induction "\<lambda>(capture::string) (csiCode::string). []::string" s rule: replace_csi.induct)
  case 1
  show ?case by (simp add: csi_deleted.Nil)
next
  case (2 c s)
  show ?case
  proof (cases "csiRegExp_at (c # s)")
    case None
    then have "\<not> starts_csi (c # s)" by (simp add: starts_csi_None)
    with 2(1) [OF None] None show ?thesis by (simp add: csi_deleted.Keep)
  next
    case (Some m)
    obtain capture csiCode rest where m: "m = (capture, csiCode, rest)" by (cases m)
    from Some m have w: "csi_sequence capture" and cs: "c # s = capture @ rest"
      using csiRegExp_at_iff by blast+
    have r: "replace_csi (\<lambda>capture csiCode. []) (c # s) = replace_csi (\<lambda>capture csiCode. []) rest"
      using Some m by simp
    have "csi_deleted (capture @ rest) (replace_csi (\<lambda>capture csiCode. []) rest)"
      using w 2(2) [OF Some m [symmetric] refl] by (rule csi_deleted.Match)
    then have "csi_deleted (c # s) (replace_csi (\<lambda>capture csiCode. []) rest)"
      by (simp only: cs)
    then show ?thesis by (simp only: r)
  qed
qed

lemma csi_deleted_unique: "csi_deleted s out \<Longrightarrow> out = replace_csi (\<lambda>capture csiCode. []) s"
proof (induction rule: csi_deleted.induct)
  case Nil
  show ?case by simp
next
  case (Match w r out)
  then show ?case by (simp add: replace_csi_match)
next
  case (Keep c s out)
  then show ?case by (simp add: replace_csi_skip del: replace_csi.simps)
qed

lemma contains_csi_Cons: "contains_csi (c # s) \<longleftrightarrow> starts_csi (c # s) \<or> contains_csi s"
proof
  assume "contains_csi (c # s)"
  then obtain u w v where e: "c # s = u @ w @ v" and w: "csi_sequence w"
    unfolding contains_csi_def by blast
  show "starts_csi (c # s) \<or> contains_csi s"
  proof (cases u)
    case Nil
    with e w show ?thesis unfolding starts_csi_def by auto
  next
    case (Cons a u')
    with e w show ?thesis unfolding contains_csi_def by auto
  qed
next
  assume "starts_csi (c # s) \<or> contains_csi s"
  then show "contains_csi (c # s)"
  proof
    assume "starts_csi (c # s)"
    then obtain w r where "c # s = [] @ w @ r" "csi_sequence w" unfolding starts_csi_def by auto
    then show ?thesis unfolding contains_csi_def by blast
  next
    assume "contains_csi s"
    then obtain u w v where "s = u @ w @ v" "csi_sequence w" unfolding contains_csi_def by blast
    then have "c # s = (c # u) @ w @ v" by simp
    with \<open>csi_sequence w\<close> show ?thesis unfolding contains_csi_def by blast
  qed
qed

lemma contains_csi_Nil: "\<not> contains_csi []"
  unfolding contains_csi_def csi_sequence_def by simp

lemma contains_csi_iff: "contains_csi s \<longleftrightarrow> has_csi s"
proof (induction s)
  case Nil
  show ?case by (simp add: contains_csi_Nil)
next
  case (Cons c s)
  show ?case
  proof (cases "csiRegExp_at (c # s)")
    case None
    then have "\<not> starts_csi (c # s)" by (simp add: starts_csi_None)
    with None Cons show ?thesis by (simp add: contains_csi_Cons)
  next
    case (Some m)
    then have "starts_csi (c # s)" using starts_csi_iff by blast
    with Some show ?thesis by (simp add: contains_csi_Cons)
  qed
qed

lemma replace_csi_no_match: "\<not> has_csi s \<Longrightarrow> replace_csi f s = s"
proof (induction s)
  case Nil
  show ?case by simp
next
  case (Cons c s)
  then have "csiRegExp_at (c # s) = None" "replace_csi f s = s"
    by (simp_all split: option.splits)
  then show ?case by simp
qed

section \<open>Escape characters that start no sequence\<close>

lemma no_stray_esc_Nil: "no_stray_esc []"
  by (simp add: no_stray_esc_def)

lemma no_stray_esc_Cons:
  "no_stray_esc (c # s) \<longleftrightarrow> (c = ESC \<longrightarrow> starts_csi (c # s)) \<and> no_stray_esc s"
proof -
  have "(\<forall>u t. c # s = u @ ESC # t \<longrightarrow> starts_csi (ESC # t)) \<longleftrightarrow>
        (c = ESC \<longrightarrow> starts_csi (ESC # s)) \<and> (\<forall>u t. s = u @ ESC # t \<longrightarrow> starts_csi (ESC # t))"
    by (auto simp: Cons_eq_append_conv)
  then show ?thesis unfolding no_stray_esc_def by auto
qed

lemma no_stray_esc_iff: "no_stray_esc s \<longleftrightarrow> stray_free s"
proof (induction s)
  case Nil
  show ?case by (simp add: no_stray_esc_Nil)
next
  case (Cons c s)
  show ?case
  proof (cases "csiRegExp_at (c # s)")
    case None
    then have "\<not> starts_csi (c # s)" by (simp add: starts_csi_None)
    with None Cons show ?thesis by (auto simp: no_stray_esc_Cons)
  next
    case (Some m)
    then have "starts_csi (c # s)" using starts_csi_iff by blast
    with Some Cons show ?thesis by (auto simp: no_stray_esc_Cons)
  qed
qed

lemma no_stray_esc_suffix: "no_stray_esc (u @ v) \<Longrightarrow> no_stray_esc v"
  by (induction u) (simp_all add: no_stray_esc_Cons)

lemma csi_sequence_has_ESC: "csi_sequence w \<Longrightarrow> ESC \<in> set w"
  unfolding csi_sequence_def by auto

lemma contains_csi_has_ESC: "contains_csi s \<Longrightarrow> ESC \<in> set s"
  unfolding contains_csi_def using csi_sequence_has_ESC by auto

lemma replace_csi_no_ESC:
  "no_stray_esc s \<Longrightarrow> ESC \<notin> set (replace_csi (\<lambda>capture csiCode. []) s)"
proof (induction "\<lambda>(capture::string) (csiCode::string). []::string" s rule: replace_csi.induct)
  case 1
  show ?case by simp
next
  case (2 c s)
  show ?case
  proof (cases "csiRegExp_at (c # s)")
    case None
    then have "\<not> starts_csi (c # s)" by (simp add: starts_csi_None)
    with 2(3) have "c \<noteq> ESC" "no_stray_esc s" by (auto simp: no_stray_esc_Cons)
    with 2(1) [OF None] None show ?thesis by simp
  next
    case (Some m)
    obtain capture csiCode rest where m: "m = (capture, csiCode, rest)" by (cases m)
    from Some m have cs: "c # s = capture @ rest"
      using csiRegExp_at_iff by blast
    with 2(3) have "no_stray_esc rest" using no_stray_esc_suffix by metis
    with 2(2) [OF Some m [symmetric] refl] Some m show ?thesis by simp
  qed
qed

lemma replace_csi_length:
  "length (replace_csi (\<lambda>capture csiCode. []) s) \<le> length s"
proof (induction "\<lambda>(capture::string) (csiCode::string). []::string" s rule: replace_csi.induct)
  case 1
  show ?case by simp
next
  case (2 c s)
  show ?case
  proof (cases "csiRegExp_at (c # s)")
    case None
    with 2(1) [OF None] show ?thesis by simp
  next
    case (Some m)
    obtain capture csiCode rest where m: "m = (capture, csiCode, rest)" by (cases m)
    from Some m have "c # s = capture @ rest"
      using csiRegExp_at_iff by blast
    then have "length rest \<le> length (c # s)" by simp
    with 2(2) [OF Some m [symmetric] refl] Some m show ?thesis by simp
  qed
qed

lemma replace_csi_shorter:
  "has_csi s \<Longrightarrow> length (replace_csi (\<lambda>capture csiCode. []) s) < length s"
proof (induction s)
  case Nil
  then show ?case by simp
next
  case (Cons c s)
  show ?case
  proof (cases "csiRegExp_at (c # s)")
    case None
    with Cons show ?thesis by simp
  next
    case (Some m)
    obtain capture csiCode rest where m: "m = (capture, csiCode, rest)" by (cases m)
    from Some m have "c # s = capture @ rest" "csi_sequence capture"
      using csiRegExp_at_iff by blast+
    then have "length rest < length (c # s)" using csi_sequence_shape(1) [of capture]
      by (metis length_append length_greater_0_conv less_add_same_cancel2 list.discI)
    with replace_csi_length [of rest] Some m show ?thesis by simp
  qed
qed

lemma removeCodes_fixed_iff: "removeCodes t = t \<longleftrightarrow> \<not> contains_csi t"
proof
  assume e: "removeCodes t = t"
  show "\<not> contains_csi t"
  proof
    assume "contains_csi t"
    then have "length (removeCodes t) < length t"
      unfolding removeCodes_def by (simp add: contains_csi_iff replace_csi_shorter)
    with e show False by simp
  qed
next
  assume "\<not> contains_csi t"
  then show "removeCodes t = t"
    by (simp add: contains_csi_iff removeCodes_def replace_csi_no_match)
qed

section \<open>Line endings\<close>

lemma replace_char_append:
  "replace_char c token (xs @ ys) = replace_char c token xs @ replace_char c token ys"
  by (simp add: replace_char_def)

lemma replace_char_Cons:
  "replace_char c token (x # xs) = (if x = c then token else [x]) @ replace_char c token xs"
  by (simp add: replace_char_def)

lemma replace_char_Nil: "replace_char c token [] = []"
  by (simp add: replace_char_def)

lemma replace_both: "replace_char CR ''[r]'' (replace_char LF ''[n]'' s) = encode_newlines s"
proof (induction s)
  case Nil
  show ?case by (simp add: replace_char_Nil encode_newlines_def)
next
  case (Cons x s)
  have tok: "replace_char CR ''[r]'' ''[n]'' = ''[n]''"
    by (simp add: replace_char_def CR_def)
  have "LF \<noteq> CR" by (simp add: LF_def CR_def)
  then show ?case using Cons tok
    by (simp add: replace_char_Cons replace_char_append replace_char_Nil encode_newlines_def)
qed

lemma class_not_newline:
  "is_param c \<Longrightarrow> \<not> is_newline c"
  "is_intermediate c \<Longrightarrow> \<not> is_newline c"
  "is_final c \<Longrightarrow> \<not> is_newline c"
  by (auto simp: is_newline_def LF_def CR_def is_param_def is_intermediate_def is_final_def)

lemma name_no_newline:
  "tryGetSgrFriendlyName n = Some name \<Longrightarrow> filter is_newline name = []"
  by (auto simp: tryGetSgrFriendlyName_def is_newline_def LF_def CR_def split: if_splits)

lemma sgrReplacer_no_newline:
  assumes "csiRegExp_at s = Some (capture, csiCode, rest)"
  shows "filter is_newline (sgrReplacer capture csiCode) = []"
    and "filter is_newline capture = []"
proof -
  from csiRegExp_at_SomeD [OF assms] obtain ps ims f where
    c: "\<forall>c\<in>set ps. is_param c" "\<forall>c\<in>set ims. is_intermediate c" "is_final f"
    and code: "csiCode = ps @ ims @ [f]" and cap: "capture = ESC # CHR ''['' # csiCode"
    by blast
  have code_nl: "filter is_newline csiCode = []"
    using c code by (auto simp: filter_empty_conv class_not_newline)
  have br: "\<not> is_newline (CHR ''['')" "\<not> is_newline (CHR '']'')" "\<not> is_newline ESC"
    by (simp_all add: is_newline_def LF_def CR_def ESC_def)
  show "filter is_newline capture = []" using cap code_nl br by simp
  show "filter is_newline (sgrReplacer capture csiCode) = []"
    using code_nl br by (simp add: sgrReplacer_def name_no_newline split: option.splits)
qed

lemma replace_csi_newlines:
  "filter is_newline (replace_csi sgrReplacer s) = filter is_newline s"
proof (induction sgrReplacer s rule: replace_csi.induct)
  case 1
  show ?case by simp
next
  case (2 c s)
  show ?case
  proof (cases "csiRegExp_at (c # s)")
    case None
    with 2(1) [OF None] show ?thesis by simp
  next
    case (Some m)
    obtain capture csiCode rest where m: "m = (capture, csiCode, rest)" by (cases m)
    from Some m have cs: "c # s = capture @ rest"
      using csiRegExp_at_iff by blast
    have "filter is_newline (c # s) = filter is_newline rest"
      unfolding cs using sgrReplacer_no_newline(2) [OF Some [unfolded m]] by simp
    moreover have "filter is_newline (replace_csi sgrReplacer (c # s)) = filter is_newline rest"
      using Some m sgrReplacer_no_newline(1) [OF Some [unfolded m]] 2(2) [OF Some m [symmetric] refl]
      by simp
    ultimately show ?thesis by simp
  qed
qed

section \<open>The SGR match and the replacement in context\<close>

lemma sgrReplacer_eq:
  "sgrReplacer capture csiCode =
     (case sgrFriendlyName csiCode of
        Some name \<Rightarrow> ''['' @ name @ '']''
      | None \<Rightarrow> ''['' @ csiCode @ '']'')"
  by (simp add: sgrReplacer_def sgrFriendlyName_def split: option.splits)

lemma m_not_digit: "\<not> is_digit (CHR ''m'')"
  by (simp add: is_digit_def)

lemma digit_is_param: "is_digit c \<Longrightarrow> is_param c"
  by (simp add: is_digit_def is_param_def)

lemma intermediate_not_digit: "is_intermediate c \<Longrightarrow> \<not> is_digit c"
  by (simp add: is_digit_def is_intermediate_def)

lemma m_no_class: "\<not> is_param (CHR ''m'')" "\<not> is_intermediate (CHR ''m'')"
  by (simp_all add: is_param_def is_intermediate_def)

lemma trailing_digits_Nil: "trailing_digits [] = []"
  by (simp add: trailing_digits_def)

lemma takeWhile_all: "\<forall>c\<in>set xs. P c \<Longrightarrow> takeWhile P xs = xs"
  by (simp add: takeWhile_eq_all_conv)

lemma trailing_digits_all: "\<forall>c\<in>set xs. is_digit c \<Longrightarrow> trailing_digits xs = xs"
  by (simp add: trailing_digits_def takeWhile_all)

lemma trailing_digits_Cons:
  "\<not> (\<forall>c\<in>set (x # xs). is_digit c) \<Longrightarrow> trailing_digits (x # xs) = trailing_digits xs"
  by (auto simp: trailing_digits_def takeWhile_append takeWhile_all)

lemma trailing_digits_append:
  assumes "\<forall>c\<in>set ds. is_digit c" and "pre = [] \<or> \<not> is_digit (last pre)"
  shows "trailing_digits (pre @ ds) = ds"
proof (cases pre rule: rev_cases)
  case Nil
  with assms(1) show ?thesis by (simp add: trailing_digits_all)
next
  case (snoc ys y)
  with assms(2) have "\<not> is_digit y" by simp
  with assms(1) snoc show ?thesis by (simp add: trailing_digits_def takeWhile_append)
qed

lemma trailing_digits_last:
  "xs \<noteq> [] \<Longrightarrow> \<not> is_digit (last xs) \<Longrightarrow> trailing_digits xs = []"
  using trailing_digits_append [of "[]" xs] by simp

lemma sgrRegExp_at_digits:
  assumes "ds \<noteq> []" and "\<forall>c\<in>set ds. is_digit c"
  shows "sgrRegExp_at (ds @ CHR ''m'' # rest) = Some ds"
  using assms by (simp add: sgrRegExp_at_def takeWhile_run m_not_digit)

lemma sgrRegExp_at_other:
  assumes "CHR ''m'' \<notin> set xs" and "\<not> (\<forall>c\<in>set xs. is_digit c)"
  shows "sgrRegExp_at (xs @ ys) = None"
proof -
  from assms(2) obtain v where v: "v \<in> set xs" "\<not> is_digit v" by blast
  then have d: "dropWhile is_digit (xs @ ys) = dropWhile is_digit xs @ ys"
    by (rule dropWhile_append1)
  from v have "dropWhile is_digit xs \<noteq> []" by (auto simp: dropWhile_eq_Nil_conv)
  then obtain w ws where w: "dropWhile is_digit xs = w # ws"
    by (cases "dropWhile is_digit xs") auto
  then have "w \<in> set xs" by (metis list.set_intros(1) set_dropWhileD)
  with assms(1) have "w \<noteq> CHR ''m''" by auto
  with d w show ?thesis unfolding sgrRegExp_at_def by simp
qed

lemma sgrRegExp_match_no_m: "CHR ''m'' \<notin> set s \<Longrightarrow> sgrRegExp_match s = None"
proof (induction s)
  case Nil
  show ?case by simp
next
  case (Cons c s)
  have "sgrRegExp_at (c # s) = None"
  proof (cases "\<forall>x\<in>set (c # s). is_digit x")
    case True
    then have "dropWhile is_digit (c # s) = []" by simp
    then show ?thesis unfolding sgrRegExp_at_def by simp
  next
    case False
    with Cons(2) sgrRegExp_at_other [of "c # s" "[]"] show ?thesis by simp
  qed
  with Cons show ?case by simp
qed

lemma sgrRegExp_match_m:
  "CHR ''m'' \<notin> set xs \<Longrightarrow>
   sgrRegExp_match (xs @ ''m'') =
     (if trailing_digits xs \<noteq> [] then Some (trailing_digits xs) else None)"
proof (induction xs)
  case Nil
  show ?case by (simp add: trailing_digits_Nil sgrRegExp_at_def m_not_digit)
next
  case (Cons x xs)
  show ?case
  proof (cases "\<forall>c\<in>set (x # xs). is_digit c")
    case True
    then have "sgrRegExp_at ((x # xs) @ CHR ''m'' # []) = Some (x # xs)"
      by (intro sgrRegExp_at_digits) simp_all
    with True show ?thesis by (simp add: trailing_digits_all)
  next
    case False
    with Cons(2) have "sgrRegExp_at ((x # xs) @ ''m'') = None"
      by (intro sgrRegExp_at_other) simp_all
    with Cons False show ?thesis by (simp add: trailing_digits_Cons)
  qed
qed

lemma sgrRegExp_match_csiCode:
  assumes "\<forall>c\<in>set ps. is_param c" and "\<forall>c\<in>set ims. is_intermediate c"
  shows "sgrRegExp_match (ps @ ims @ [f]) =
     (if f = CHR ''m'' \<and> ims = [] \<and> trailing_digits ps \<noteq> []
      then Some (trailing_digits ps) else None)"
proof -
  have nm: "CHR ''m'' \<notin> set (ps @ ims)"
    using assms m_no_class by auto
  show ?thesis
  proof (cases "f = CHR ''m''")
    case False
    with nm have "CHR ''m'' \<notin> set (ps @ ims @ [f])" by simp
    with False show ?thesis by (simp add: sgrRegExp_match_no_m)
  next
    case True
    have t: "trailing_digits (ps @ ims) = (if ims = [] then trailing_digits ps else [])"
    proof (cases "ims = []")
      case False
      then have "last (ps @ ims) \<in> set ims" by simp
      with assms(2) have "\<not> is_digit (last (ps @ ims))"
        using intermediate_not_digit by blast
      with False show ?thesis by (simp add: trailing_digits_last)
    qed simp
    from sgrRegExp_match_m [OF nm] True t show ?thesis by simp
  qed
qed

lemma sgrFriendlyName_csiCode:
  assumes "\<forall>c\<in>set ps. is_param c" and "\<forall>c\<in>set ims. is_intermediate c"
  shows "sgrFriendlyName (ps @ ims @ [f]) =
     (if f = CHR ''m'' \<and> ims = [] \<and> trailing_digits ps \<noteq> []
      then tryGetSgrFriendlyName (parseInt (trailing_digits ps)) else None)"
  unfolding sgrFriendlyName_def sgrRegExp_match_csiCode [OF assms] by simp

lemma format_single:
  assumes "\<forall>c\<in>set ps. is_param c" and "\<forall>c\<in>set ims. is_intermediate c" and "is_final f"
  shows "formatForTests (ESC # CHR ''['' # ps @ ims @ [f]) None =
         sgrReplacer (ESC # CHR ''['' # ps @ ims @ [f]) (ps @ ims @ [f])"
proof -
  have "csiRegExp_at (ESC # CHR ''['' # ps @ ims @ [f]) =
        Some (ESC # CHR ''['' # ps @ ims @ [f], ps @ ims @ [f], [])"
    using csiRegExp_at_sequence [OF assms, of "[]"] by simp
  then show ?thesis by (simp add: formatForTests_def)
qed

lemma csi_sequence_tail_no_ESC: "csi_sequence w \<Longrightarrow> ESC \<notin> set (tl w)"
proof -
  assume "csi_sequence w"
  then obtain ps ims f where w: "w = ESC # CHR ''['' # ps @ ims @ [f]"
    and c: "\<forall>c\<in>set ps. is_param c" "\<forall>c\<in>set ims. is_intermediate c" "is_final f"
    unfolding csi_sequence_def by blast
  have "ESC \<noteq> CHR ''[''" by (simp add: ESC_def)
  with c ESC_no_class w show ?thesis by auto
qed

lemma csiRegExp_at_append_Some:
  assumes "csiRegExp_at s = Some (capture, csiCode, rest)"
  shows "csiRegExp_at (s @ x) = Some (capture, csiCode, rest @ x)"
  using assms unfolding csiRegExp_at_iff by auto

lemma csiRegExp_at_append_None:
  assumes "csiRegExp_at (c # p) = None"
  shows "csiRegExp_at (c # p @ ESC # t) = None"
proof (rule ccontr)
  assume "csiRegExp_at (c # p @ ESC # t) \<noteq> None"
  then obtain capture csiCode rest where
    m: "csiRegExp_at (c # p @ ESC # t) = Some (capture, csiCode, rest)" by auto
  then have w: "csi_sequence capture" and e: "(c # p) @ ESC # t = capture @ rest"
    unfolding csiRegExp_at_iff by auto
  from assms have ns: "\<not> starts_csi (c # p)" by (simp add: starts_csi_None)
  from e obtain us where
    "(c # p = capture @ us \<and> us @ ESC # t = rest) \<or> ((c # p) @ us = capture \<and> ESC # t = us @ rest)"
    unfolding append_eq_append_conv2 by blast
  then show False
  proof
    assume "c # p = capture @ us \<and> us @ ESC # t = rest"
    with w have "starts_csi (c # p)" unfolding starts_csi_def by blast
    with ns show False ..
  next
    assume a: "(c # p) @ us = capture \<and> ESC # t = us @ rest"
    show False
    proof (cases us)
      case Nil
      with a w have "starts_csi (c # p)" unfolding starts_csi_def by (metis append_Nil2)
      with ns show False ..
    next
      case (Cons u us')
      with a have "u = ESC" "capture = c # p @ ESC # us'" by auto
      then have "ESC \<in> set (tl capture)" by simp
      with csi_sequence_tail_no_ESC [OF w] show False ..
    qed
  qed
qed

lemma replace_csi_append_ESC:
  "replace_csi f (pre @ ESC # t) = replace_csi f pre @ replace_csi f (ESC # t)"
proof (induction f pre rule: replace_csi.induct)
  case (1 f)
  show ?case by simp
next
  case (2 f c p)
  show ?case
  proof (cases "csiRegExp_at (c # p)")
    case None
    from csiRegExp_at_append_None [OF None, of t] None 2(1) [OF None] show ?thesis by simp
  next
    case (Some m)
    obtain capture csiCode rest where m: "m = (capture, csiCode, rest)" by (cases m)
    from csiRegExp_at_append_Some [OF Some [unfolded m], of "ESC # t"]
    have "csiRegExp_at (c # p @ ESC # t) = Some (capture, csiCode, rest @ ESC # t)" by simp
    with Some m 2(2) [OF Some m [symmetric] refl] show ?thesis by simp
  qed
qed

lemma replace_csi_context:
  assumes "csi_sequence w"
  shows "replace_csi f (pre @ w @ post) = replace_csi f pre @ f w (drop 2 w) @ replace_csi f post"
proof -
  obtain t where w: "w = ESC # t" using csi_sequence_shape(1) [OF assms] by blast
  have "replace_csi f (pre @ ESC # t @ post) = replace_csi f pre @ replace_csi f (ESC # t @ post)"
    by (rule replace_csi_append_ESC)
  then have "replace_csi f (pre @ w @ post) = replace_csi f pre @ replace_csi f (w @ post)"
    using w by simp
  then show ?thesis by (simp only: replace_csi_match [OF assms])
qed

lemma encode_newlines_append:
  "encode_newlines (xs @ ys) = encode_newlines xs @ encode_newlines ys"
  by (simp add: encode_newlines_def)

lemma encode_newlines_none: "filter is_newline s = [] \<Longrightarrow> encode_newlines s = s"
  by (induction s) (auto simp: encode_newlines_def is_newline_def split: if_splits)

lemma formatForTests_eq:
  "formatForTests text options =
     (if (case options of None \<Rightarrow> None | Some given \<Rightarrow> encodeNewlines given) = Some True
      then encode_newlines (replace_csi sgrReplacer text)
      else replace_csi sgrReplacer text)"
  by (cases options) (simp_all add: formatForTests_def replace_both)

lemma formatForTests_context:
  assumes "csi_sequence w"
  shows "formatForTests (pre @ w @ post) options =
         formatForTests pre options @ sgrReplacer w (drop 2 w) @ formatForTests post options"
proof -
  have "csiRegExp_at (w @ []) = Some (w, drop 2 w, [])"
    using assms csi_sequence_shape(1) [OF assms] csiRegExp_at_iff by blast
  then have "filter is_newline (sgrReplacer w (drop 2 w)) = []"
    by (rule sgrReplacer_no_newline(1))
  then have "encode_newlines (sgrReplacer w (drop 2 w)) = sgrReplacer w (drop 2 w)"
    by (rule encode_newlines_none)
  then show ?thesis
    by (simp add: formatForTests_eq replace_csi_context [OF assms] encode_newlines_append)
qed

section \<open>Numerals and the table\<close>

lemma digit_char_value: "d < 10 \<Longrightarrow> is_digit (digit_char d) \<and> digit_value (digit_char d) = d"
  by (simp add: digit_char_def is_digit_def digit_value_def)

lemma decimal_digits: "decimal n \<noteq> [] \<and> (\<forall>c\<in>set (decimal n). is_digit c)"
proof (induction n rule: decimal.induct)
  case (1 n)
  show ?case
  proof (cases "n < 10")
    case True
    then show ?thesis by (simp add: decimal.simps [of n] digit_char_value)
  next
    case False
    have "n mod 10 < 10" by simp
    with False 1 [OF False] show ?thesis
      by (simp add: decimal.simps [of n] digit_char_value)
  qed
qed

lemma parseInt_snoc: "parseInt (xs @ [c]) = 10 * parseInt xs + digit_value c"
  by (simp add: parseInt_def)

lemma parseInt_decimal: "parseInt (decimal n) = n"
proof (induction n rule: decimal.induct)
  case (1 n)
  show ?case
  proof (cases "n < 10")
    case True
    then show ?thesis by (simp add: decimal.simps [of n] parseInt_def digit_char_value)
  next
    case False
    have "n mod 10 < 10" by simp
    with False 1 [OF False] show ?thesis
      by (simp add: decimal.simps [of n] parseInt_snoc digit_char_value)
  qed
qed

lemma parseInt_leading_zero: "parseInt (CHR ''0'' # ds) = parseInt ds"
  by (simp add: parseInt_def digit_value_def)

lemma format_digits:
  assumes "ds \<noteq> []" and "\<forall>c\<in>set ds. is_digit c"
    and "tryGetSgrFriendlyName (parseInt ds) = Some name"
  shows "formatForTests (ESC # CHR ''['' # ds @ ''m'') None = ''['' @ name @ '']''"
proof -
  have p: "\<forall>c\<in>set ds. is_param c" using assms(2) digit_is_param by blast
  have i: "\<forall>c\<in>set []. is_intermediate c" by simp
  have f: "is_final (CHR ''m'')" by (simp add: is_final_def)
  have "sgrFriendlyName (ds @ [] @ ''m'') = Some name"
    unfolding sgrFriendlyName_csiCode [OF p i] using assms by (simp add: trailing_digits_all)
  with format_single [OF p i f] show ?thesis by (simp add: sgrReplacer_eq)
qed

lemma tryGetSgrFriendlyName_table: "tryGetSgrFriendlyName n = map_of sgr_table n"
  by (simp add: tryGetSgrFriendlyName_def sgr_table_def)

lemma sgr_table_distinct: "distinct (map fst sgr_table)"
  by (simp add: sgr_table_def)

lemma sgr_table_hit: "(code, name) \<in> set sgr_table \<Longrightarrow> tryGetSgrFriendlyName code = Some name"
  unfolding tryGetSgrFriendlyName_table using sgr_table_distinct by (rule map_of_is_SomeI)

lemma decimal_100: "decimal 100 = ''100''"
  by code_simp

lemma decimal_1: "decimal 1 = ''1''"
  by code_simp

lemma parseInt_leading_zeros: "parseInt (replicate k (CHR ''0'') @ ds) = parseInt ds"
  by (induction k) (simp_all add: parseInt_leading_zero)

lemma zeros_decimal_digits:
  "replicate k (CHR ''0'') @ decimal n \<noteq> [] \<and>
   (\<forall>c\<in>set (replicate k (CHR ''0'') @ decimal n). is_digit c)"
proof -
  have "is_digit (CHR ''0'')" by (simp add: is_digit_def)
  with decimal_digits [of n] show ?thesis by auto
qed

lemma format_digit_run_context:
  assumes ps: "\<forall>c\<in>set ps. is_param c" and last: "ps = [] \<or> \<not> is_digit (last ps)"
    and ne: "ds \<noteq> []" and ds: "\<forall>c\<in>set ds. is_digit c"
    and hit: "tryGetSgrFriendlyName (parseInt ds) = Some name"
  shows "formatForTests (pre @ ESC # CHR ''['' # ps @ ds @ ''m'' @ post) options =
         formatForTests pre options @ ''['' @ name @ '']'' @ formatForTests post options"
proof -
  let ?w = "ESC # CHR ''['' # (ps @ ds) @ [] @ ''m''"
  have p: "\<forall>c\<in>set (ps @ ds). is_param c"
    using ps ds digit_is_param by auto
  have i: "\<forall>c\<in>set []. is_intermediate c" by simp
  have f: "is_final (CHR ''m'')" by (simp add: is_final_def)
  have w: "csi_sequence ?w" unfolding csi_sequence_def using p i f by blast
  have t: "trailing_digits (ps @ ds) = ds"
    using ds last by (rule trailing_digits_append)
  have "sgrFriendlyName ((ps @ ds) @ [] @ ''m'') = Some name"
    unfolding sgrFriendlyName_csiCode [OF p i] t using ne hit by simp
  then have "sgrReplacer ?w (drop 2 ?w) = ''['' @ name @ '']''"
    by (simp add: sgrReplacer_eq)
  with formatForTests_context [OF w, of pre post options] show ?thesis by simp
qed

lemma decimal_31: "decimal 31 = ''31''"
  by code_simp

section \<open>The claims\<close>

text \<open>
  Claim C1, as amended. The fallback token holds capture group 1 of \<^verbatim>\<open>_csiRegExp\<close>,
  which ends with the final byte: for every CSI match for which the SGR step yields no
  friendly name, \<^verbatim>\<open>formatForTests\<close> replaces the match, wherever it stands in the
  text and whatever the options, by \<^verbatim>\<open>[\<close>, the parameter and intermediate bytes, the
  final byte and \<^verbatim>\<open>]\<close>; only the introducer is stripped. The counterexample is the
  claim as stated: the sequence with body \<^verbatim>\<open>0\<close> has no friendly name and is rendered
  \<^verbatim>\<open>[0m]\<close>, and the example of the claim is rendered \<^verbatim>\<open>[red]\<close>.
\<close>

theorem formatForTests_fallback:
  assumes "\<forall>c\<in>set ps. is_param c" and "\<forall>c\<in>set ims. is_intermediate c" and "is_final f"
    and "sgrFriendlyName (ps @ ims @ [f]) = None"
  shows "formatForTests (pre @ ESC # CHR ''['' # ps @ ims @ [f] @ post) options =
         formatForTests pre options @ ''['' @ ps @ ims @ [f] @ '']'' @ formatForTests post options"
proof -
  let ?w = "ESC # CHR ''['' # ps @ ims @ [f]"
  have w: "csi_sequence ?w" unfolding csi_sequence_def using assms(1-3) by blast
  have "sgrReplacer ?w (drop 2 ?w) = ''['' @ ps @ ims @ [f] @ '']''"
    using assms(4) by (simp add: sgrReplacer_eq)
  with formatForTests_context [OF w, of pre post options] show ?thesis by simp
qed

theorem formatForTests_fallback_witness:
  "sgrFriendlyName ''0m'' = None \<and>
   formatForTests (''a'' @ ESC # ''[0m'' @ ''b'') None = ''a[0m]b''"
proof -
  have n: "sgrFriendlyName (''0'' @ [] @ ''m'') = None"
    by (simp add: sgrFriendlyName_def sgrRegExp_at_def parseInt_def digit_value_def
        tryGetSgrFriendlyName_def is_digit_def)
  have p: "\<forall>c\<in>set ''0''. is_param c" by (simp add: is_param_def)
  have i: "\<forall>c\<in>set []. is_intermediate c" by simp
  have f: "is_final (CHR ''m'')" by (simp add: is_final_def)
  have "formatForTests ''a'' None = ''a''" "formatForTests ''b'' None = ''b''"
    by (simp_all add: formatForTests_def ESC_def)
  with formatForTests_fallback [OF p i f n, of "''a''" "''b''" None] n show ?thesis by simp
qed

theorem formatForTests_fallback_counterexample:
  "sgrFriendlyName ''0m'' = None \<and>
   formatForTests (ESC # ''[0m'') None = ''[0m]'' \<and>
   formatForTests (ESC # ''[0m'') None \<noteq> ''[0]'' \<and>
   formatForTests (ESC # ''[1;31m'') None = ''[red]'' \<and>
   formatForTests (ESC # ''[1;31m'') None \<noteq> ''[1;31]''"
  by (simp add: formatForTests_def sgrReplacer_def sgrFriendlyName_def sgrRegExp_at_def
      parseInt_def digit_value_def tryGetSgrFriendlyName_def Let_def class_defs)

text \<open>
  Claim C2. The claim, like the comment at \<^verbatim>\<open>_sgrRegExp\<close> (the SGR sequence is a number
  followed by \<^verbatim>\<open>m\<close>), takes the SGR step to give a friendly name only when the whole
  body is one number. The expression has no anchor and \<^verbatim>\<open>match\<close> searches the whole
  group, so at the multi-parameter sequence with body \<^verbatim>\<open>1;31\<close> the code matches the
  last parameter, finds 31 in the table and emits \<^verbatim>\<open>[red]\<close>, where the claim asks for
  no friendly name and the fallback token. The theorem evaluates the code at that input.
\<close>

theorem sgr_multi_parameter_divergence:
  "\<not> list_all is_digit ''1;31'' \<and>
   sgrRegExp_match ''1;31m'' = Some ''31'' \<and>
   sgrFriendlyName ''1;31m'' = Some ''red'' \<and>
   formatForTests (ESC # ''[1;31m'') None = ''[red]'' \<and>
   formatForTests (ESC # ''[1;31m'') None \<noteq> ''[1;31m]''"
  by (simp add: formatForTests_def sgrReplacer_def sgrFriendlyName_def sgrRegExp_at_def
      parseInt_def digit_value_def tryGetSgrFriendlyName_def Let_def class_defs)

text \<open>
  Claim C3, as amended. \<^verbatim>\<open>removeCodes\<close> deletes CSI sequences only, so an escape
  character that starts none stays, and a deletion can join the text around it into a new
  sequence. For every string in which every escape character starts a CSI sequence, the
  output of \<^verbatim>\<open>removeCodes\<close> contains no escape character, and hence no CSI
  sequence. The counterexample is the claim as stated, at two inputs with a stray escape
  character: a lone escape character is kept, and the output for the second input keeps
  one and is itself a CSI sequence.
\<close>

theorem removeCodes_no_escape:
  "no_stray_esc s \<Longrightarrow> ESC \<notin> set (removeCodes s) \<and> \<not> contains_csi (removeCodes s)"
  using replace_csi_no_ESC [of s] contains_csi_has_ESC [of "removeCodes s"]
  unfolding removeCodes_def by blast

theorem removeCodes_no_escape_witness:
  "no_stray_esc (ESC # ''[31mRed'' @ ESC # ''[39m'') \<and>
   ESC \<notin> set (removeCodes (ESC # ''[31mRed'' @ ESC # ''[39m'')) \<and>
   \<not> contains_csi (removeCodes (ESC # ''[31mRed'' @ ESC # ''[39m''))"
proof -
  have h: "no_stray_esc (ESC # ''[31mRed'' @ ESC # ''[39m'')"
    by (simp add: no_stray_esc_iff Let_def class_defs)
  from h removeCodes_no_escape [OF h] show ?thesis by simp
qed

theorem removeCodes_escape_counterexample:
  "removeCodes [ESC] = [ESC] \<and>
   removeCodes (ESC # ESC # ''[m[m'') = ESC # ''[m'' \<and>
   ESC \<in> set (removeCodes (ESC # ESC # ''[m[m'')) \<and>
   contains_csi (removeCodes (ESC # ESC # ''[m[m''))"
  by (simp add: contains_csi_iff removeCodes_def Let_def class_defs)

text \<open>
  Claim C4, as amended. \<^verbatim>\<open>removeCodes(removeCodes(s))\<close> equals
  \<^verbatim>\<open>removeCodes(s)\<close> exactly when \<^verbatim>\<open>removeCodes(s)\<close> contains no CSI sequence,
  which holds whenever every escape character of \<open>s\<close> starts a CSI sequence. The
  counterexample is an input where the first pass joins a stray escape character with
  the text after the deleted sequence, and the second pass deletes the result.
\<close>

theorem removeCodes_idempotent_iff:
  "(removeCodes (removeCodes s) = removeCodes s \<longleftrightarrow> \<not> contains_csi (removeCodes s)) \<and>
   (no_stray_esc s \<longrightarrow> removeCodes (removeCodes s) = removeCodes s)"
proof
  show "removeCodes (removeCodes s) = removeCodes s \<longleftrightarrow> \<not> contains_csi (removeCodes s)"
    by (rule removeCodes_fixed_iff)
  show "no_stray_esc s \<longrightarrow> removeCodes (removeCodes s) = removeCodes s"
  proof
    assume "no_stray_esc s"
    then have "ESC \<notin> set (replace_csi (\<lambda>capture csiCode. []) s)" by (rule replace_csi_no_ESC)
    then have "\<not> contains_csi (removeCodes s)"
      unfolding removeCodes_def using contains_csi_has_ESC by blast
    then show "removeCodes (removeCodes s) = removeCodes s" by (simp add: removeCodes_fixed_iff)
  qed
qed

theorem removeCodes_idempotent_witness:
  "no_stray_esc (ESC # ''[31mRed'' @ ESC # ''[39m'') \<and>
   removeCodes (removeCodes (ESC # ''[31mRed'' @ ESC # ''[39m'')) =
   removeCodes (ESC # ''[31mRed'' @ ESC # ''[39m'')"
proof -
  have h: "no_stray_esc (ESC # ''[31mRed'' @ ESC # ''[39m'')"
    by (simp add: no_stray_esc_iff Let_def class_defs)
  from h removeCodes_idempotent_iff [of "ESC # ''[31mRed'' @ ESC # ''[39m''"] show ?thesis
    by blast
qed

theorem removeCodes_idempotent_counterexample:
  "removeCodes (ESC # ESC # ''[m[m'') = ESC # ''[m'' \<and>
   removeCodes (removeCodes (ESC # ESC # ''[m[m'')) = [] \<and>
   removeCodes (removeCodes (ESC # ESC # ''[m[m'')) \<noteq> removeCodes (ESC # ESC # ''[m[m'')"
  by (simp add: removeCodes_def Let_def class_defs)

text \<open>
  Claim C5. \<^verbatim>\<open>removeCodes(s)\<close> is \<open>s\<close> with exactly the non-overlapping substrings that
  match the CSI grammar, taken from left to right, deleted, and every character outside
  them kept in its place: the result of \<open>removeCodes\<close> is the one and only string
  that \<open>csi_deleted\<close> relates to \<open>s\<close>.
\<close>

theorem removeCodes_deletes_csi: "csi_deleted s out \<longleftrightarrow> out = removeCodes s"
  unfolding removeCodes_def using csi_deleted_replace csi_deleted_unique by blast

theorem removeCodes_deletes_csi_witness:
  "csi_deleted (ESC # ''[31mRed'' @ ESC # ''[39m'') ''Red''"
  using removeCodes_deletes_csi [of "ESC # ''[31mRed'' @ ESC # ''[39m''" "''Red''"]
  by (simp add: removeCodes_def Let_def class_defs)

text \<open>
  Claim C6. The specification's table has 32 pairs, and for each pair of a code and a
  name, \<^verbatim>\<open>formatForTests\<close> renders the sequence made of the introducer, the decimal
  numeral of the code and \<^verbatim>\<open>m\<close> as the name in brackets.
\<close>

theorem sgr_table_fidelity:
  "length sgr_table = 32 \<and>
   (\<forall>(code, name)\<in>set sgr_table.
      formatForTests (ESC # CHR ''['' # decimal code @ ''m'') None = ''['' @ name @ '']'')"
proof
  show "length sgr_table = 32" by (simp add: sgr_table_def)
  show "\<forall>(code, name)\<in>set sgr_table.
      formatForTests (ESC # CHR ''['' # decimal code @ ''m'') None = ''['' @ name @ '']''"
  proof (clarify)
    fix code name
    assume "(code, name) \<in> set sgr_table"
    then have "tryGetSgrFriendlyName (parseInt (decimal code)) = Some name"
      by (simp add: parseInt_decimal sgr_table_hit)
    with decimal_digits [of code] show
      "formatForTests (ESC # CHR ''['' # decimal code @ ''m'') None = ''['' @ name @ '']''"
      by (intro format_digits) simp_all
  qed
qed

theorem sgr_table_fidelity_witness:
  "(100, ''gray-bg'') \<in> set sgr_table \<and> formatForTests (ESC # ''[100m'') None = ''[gray-bg]''"
proof -
  have m: "(100, ''gray-bg'') \<in> set sgr_table" by (simp add: sgr_table_def)
  from sgr_table_fidelity have
    "\<forall>(code, name)\<in>set sgr_table.
      formatForTests (ESC # CHR ''['' # decimal code @ ''m'') None = ''['' @ name @ '']''" ..
  from bspec [OF this m] m show ?thesis by (simp add: decimal_100)
qed

text \<open>
  Claim C7. A string none of whose substrings is a CSI sequence is returned unchanged by
  \<^verbatim>\<open>removeCodes\<close> and by \<^verbatim>\<open>formatForTests\<close> called without options. The witness is
  a string with a lone escape character and a truncated sequence at its end.
\<close>

theorem no_csi_unchanged:
  "\<not> contains_csi s \<Longrightarrow> removeCodes s = s \<and> formatForTests s None = s"
  by (simp add: contains_csi_iff removeCodes_def formatForTests_def replace_csi_no_match)

theorem no_csi_unchanged_witness:
  "\<not> contains_csi (''ab'' @ ESC # ''c'' @ ESC # ''['') \<and>
   removeCodes (''ab'' @ ESC # ''c'' @ ESC # ''['') = ''ab'' @ ESC # ''c'' @ ESC # ''['' \<and>
   formatForTests (''ab'' @ ESC # ''c'' @ ESC # ''['') None = ''ab'' @ ESC # ''c'' @ ESC # ''[''"
proof -
  have h: "\<not> contains_csi (''ab'' @ ESC # ''c'' @ ESC # ''['')"
    by (simp add: contains_csi_iff Let_def class_defs)
  from h no_csi_unchanged [OF h] show ?thesis by simp
qed

text \<open>
  Claim C8. With \<^verbatim>\<open>encodeNewlines\<close> true, \<^verbatim>\<open>formatForTests\<close> is the escape
  substitution followed by the replacement, over the whole string, of every line feed by
  \<^verbatim>\<open>[n]\<close> and of every carriage return by \<^verbatim>\<open>[r]\<close>. With the option false or
  unset the result is that of a call without options, whose line endings are those of
  the input, in order. The last two conjuncts are the example of the specification.
\<close>

theorem formatForTests_encodeNewlines:
  "formatForTests text (Some \<lparr>encodeNewlines = Some True\<rparr>) = encode_newlines (formatForTests text None) \<and>
   formatForTests text (Some \<lparr>encodeNewlines = Some False\<rparr>) = formatForTests text None \<and>
   formatForTests text (Some \<lparr>encodeNewlines = None\<rparr>) = formatForTests text None \<and>
   filter is_newline (formatForTests text None) = filter is_newline text \<and>
   formatForTests (''a'' @ LF # ''b'' @ CR # ''c'') (Some \<lparr>encodeNewlines = Some True\<rparr>) = ''a[n]b[r]c'' \<and>
   formatForTests (''a'' @ LF # ''b'' @ CR # ''c'') None = ''a'' @ LF # ''b'' @ CR # ''c''"
proof -
  have plain: "formatForTests (''a'' @ LF # ''b'' @ CR # ''c'') None = ''a'' @ LF # ''b'' @ CR # ''c''"
    by (simp add: formatForTests_def LF_def CR_def ESC_def)
  have "encode_newlines (''a'' @ LF # ''b'' @ CR # ''c'') = ''a[n]b[r]c''"
    by (simp add: encode_newlines_def LF_def CR_def)
  with plain show ?thesis
    by (simp add: formatForTests_def replace_both replace_csi_newlines)
qed

theorem formatForTests_encodeNewlines_witness:
  "formatForTests (ESC # ''[1mx'' @ [CR, LF]) (Some \<lparr>encodeNewlines = Some True\<rparr>) = ''[bold]x[r][n]''"
proof -
  have "formatForTests (ESC # ''[1mx'' @ [CR, LF]) None = ''[bold]x'' @ [CR, LF]"
    by (simp add: formatForTests_def sgrReplacer_def sgrRegExp_at_def parseInt_def
        digit_value_def tryGetSgrFriendlyName_def Let_def class_defs CR_def LF_def)
  with formatForTests_encodeNewlines [of "ESC # ''[1mx'' @ [CR, LF]"] show ?thesis
    by (simp add: encode_newlines_def CR_def LF_def)
qed

text \<open>
  Claim C9. Take a CSI sequence whose body is any parameter bytes followed by a digit run
  and whose final byte is \<^verbatim>\<open>m\<close>, the run being the longest one (no digit stands
  before it): the decimal numeral of a code of the specification's table, after any number
  of zeros. Wherever the sequence stands in the text and whatever the options,
  \<^verbatim>\<open>formatForTests\<close> replaces it by the table's name for that code in brackets, not
  by the fallback token. The first conjunct of the witness is the example of the claim.
\<close>

theorem sgr_last_parameter:
  assumes "(code, name) \<in> set sgr_table"
    and "\<forall>c\<in>set ps. is_param c" and "ps = [] \<or> \<not> is_digit (last ps)"
  shows "formatForTests
           (pre @ ESC # CHR ''['' # ps @ replicate k (CHR ''0'') @ decimal code @ ''m'' @ post)
           options =
         formatForTests pre options @ ''['' @ name @ '']'' @ formatForTests post options"
proof -
  let ?ds = "replicate k (CHR ''0'') @ decimal code"
  have "parseInt ?ds = code"
    by (simp add: parseInt_leading_zeros parseInt_decimal)
  with assms(1) have hit: "tryGetSgrFriendlyName (parseInt ?ds) = Some name"
    by (simp add: sgr_table_hit)
  from zeros_decimal_digits [of k code]
  have ne: "?ds \<noteq> []" and ds: "\<forall>c\<in>set ?ds. is_digit c" by blast+
  from format_digit_run_context [OF assms(2,3) ne ds hit, of pre post options]
  show ?thesis by simp
qed

theorem sgr_last_parameter_witness:
  "formatForTests (ESC # ''[38;5;31m'') None = ''[red]'' \<and>
   formatForTests (''x'' @ ESC # ''[38;5;031m'' @ [LF]) (Some \<lparr>encodeNewlines = Some True\<rparr>) =
     ''x[red][n]''"
proof -
  have m: "(31, ''red'') \<in> set sgr_table" by (simp add: sgr_table_def)
  have p: "\<forall>c\<in>set ''38;5;''. is_param c" by (simp add: is_param_def)
  have l: "''38;5;'' = [] \<or> \<not> is_digit (last ''38;5;'')" by (simp add: is_digit_def)
  have e: "formatForTests [] None = []"
    by (simp add: formatForTests_def)
  have x: "formatForTests ''x'' (Some \<lparr>encodeNewlines = Some True\<rparr>) = ''x''"
    "formatForTests [LF] (Some \<lparr>encodeNewlines = Some True\<rparr>) = ''[n]''"
    by (simp_all add: formatForTests_def replace_char_def ESC_def LF_def CR_def)
  have a: "formatForTests (ESC # ''[38;5;31m'') None = ''[red]''"
    using sgr_last_parameter [OF m p l, of "[]" 0 "[]" None] e
    unfolding decimal_31 by simp
  have b: "formatForTests (''x'' @ ESC # ''[38;5;031m'' @ [LF])
             (Some \<lparr>encodeNewlines = Some True\<rparr>) = ''x[red][n]''"
    using sgr_last_parameter [OF m p l, of "''x''" 1 "[LF]" "Some \<lparr>encodeNewlines = Some True\<rparr>"] x
    unfolding decimal_31 by simp
  from a b show ?thesis ..
qed

text \<open>
  Claim C10. The digits are read in base 10, so a leading zero does not change the value:
  for each pair of the table, the sequence with a \<^verbatim>\<open>0\<close> before the code's numeral is
  rendered as the same token; the last conjunct is the example of the claim.
\<close>

theorem sgr_leading_zero:
  "(\<forall>ds. parseInt (CHR ''0'' # ds) = parseInt ds) \<and>
   (\<forall>(code, name)\<in>set sgr_table.
      formatForTests (ESC # CHR ''['' # CHR ''0'' # decimal code @ ''m'') None = ''['' @ name @ '']'') \<and>
   formatForTests (ESC # ''[01m'') None = ''[bold]''"
proof -
  have t: "\<forall>(code, name)\<in>set sgr_table.
      formatForTests (ESC # CHR ''['' # CHR ''0'' # decimal code @ ''m'') None = ''['' @ name @ '']''"
  proof (clarify)
    fix code name
    assume "(code, name) \<in> set sgr_table"
    then have n: "tryGetSgrFriendlyName (parseInt (CHR ''0'' # decimal code)) = Some name"
      by (simp add: parseInt_leading_zero parseInt_decimal sgr_table_hit)
    have z: "is_digit (CHR ''0'')" by (simp add: is_digit_def)
    have "formatForTests (ESC # CHR ''['' # (CHR ''0'' # decimal code) @ ''m'') None = ''['' @ name @ '']''"
      using n z decimal_digits [of code] by (intro format_digits) simp_all
    then show "formatForTests (ESC # CHR ''['' # CHR ''0'' # decimal code @ ''m'') None = ''['' @ name @ '']''"
      by simp
  qed
  have "(1, ''bold'') \<in> set sgr_table" by (simp add: sgr_table_def)
  from bspec [OF t this]
  have "formatForTests (ESC # CHR ''['' # CHR ''0'' # decimal 1 @ ''m'') None = ''['' @ ''bold'' @ '']''"
    by (simp only: prod.case)
  then have "formatForTests (ESC # ''[01m'') None = ''[bold]''"
    unfolding decimal_1 by simp
  with t parseInt_leading_zero show ?thesis by blast
qed

theorem sgr_leading_zero_witness:
  "(31, ''red'') \<in> set sgr_table \<and> formatForTests (ESC # ''[031m'') None = ''[red]''"
proof -
  have m: "(31, ''red'') \<in> set sgr_table" by (simp add: sgr_table_def)
  have d: "decimal 31 = ''31''"
    by code_simp
  from sgr_leading_zero have
    "\<forall>(code, name)\<in>set sgr_table.
      formatForTests (ESC # CHR ''['' # CHR ''0'' # decimal code @ ''m'') None = ''['' @ name @ '']''"
    by blast
  from bspec [OF this m] m show ?thesis by (simp add: d)
qed

end
